theory Spec2Isabelle
  imports Main "HOL-Library.Sublist"
begin

section \<open>JavaScript numbers and their decimal strings\<close>

text \<open>
  The counters handled by \<^verbatim>\<open>RedisService.rateLimit\<close> are JavaScript numbers obtained from
  \<^verbatim>\<open>parseInt\<close>, so they are either an integer or \<^verbatim>\<open>NaN\<close>. Integers are modelled as
  mathematical integers; strings are lists of 8-bit characters, so the white space
  skipped by \<^verbatim>\<open>parseInt\<close> is the white space below code 256.

  A JavaScript number is a double. Up to magnitude \<open>2^53\<close> every integer is a double, and
  \<^verbatim>\<open>parseInt\<close>, \<^verbatim>\<open>count + 1\<close> and \<^verbatim>\<open>toString\<close> are the exact operations defined here as long
  as their results stay in that range; beyond it the source rounds (\<^verbatim>\<open>2^53 + 1\<close> is
  \<^verbatim>\<open>2^53\<close> again, and from \<^verbatim>\<open>1e21\<close> on \<^verbatim>\<open>toString\<close> prints an exponent). Every statement
  below about a counter that is incremented and written therefore keeps the counter in
  the exact range.
\<close>

datatype number = NaN | Num int

text \<open>\<^verbatim>\<open>count >= limit\<close>: every comparison with \<^verbatim>\<open>NaN\<close> is false.\<close>

fun number_ge :: "number \<Rightarrow> int \<Rightarrow> bool" where
  "number_ge NaN l = False"
| "number_ge (Num c) l = (l \<le> c)"

text \<open>\<^verbatim>\<open>count + 1\<close>: \<^verbatim>\<open>NaN + 1\<close> is \<^verbatim>\<open>NaN\<close>.\<close>

fun number_succ :: "number \<Rightarrow> number" where
  "number_succ NaN = NaN"
| "number_succ (Num c) = Num (c + 1)"

text \<open>
  The numbers on which \<^verbatim>\<open>count + 1\<close> is exact in the source as well: \<^verbatim>\<open>NaN\<close>, and the
  integers of magnitude below \<open>2^53\<close> (those of \<^verbatim>\<open>Number.isSafeInteger\<close>).
\<close>

fun exact :: "number \<Rightarrow> bool" where
  "exact NaN = True"
| "exact (Num c) = (\<bar>c\<bar> < 2 ^ 53)"

definition digit_char :: "nat \<Rightarrow> char" where
  "digit_char d = char_of (48 + d)"

fun dec_digits :: "nat \<Rightarrow> string" where
  "dec_digits n =
     (if n < 10 then [digit_char n] else dec_digits (n div 10) @ [digit_char (n mod 10)])"

declare dec_digits.simps [simp del]

text \<open>\<^verbatim>\<open>Number.prototype.toString()\<close> on an integer or \<^verbatim>\<open>NaN\<close>.\<close>

fun toString :: "number \<Rightarrow> string" where
  "toString NaN = ''NaN''"
| "toString (Num i) = (if i < 0 then CHR ''-'' # dec_digits (nat (- i)) else dec_digits (nat i))"

text \<open>
  \<^verbatim>\<open>parseInt(string)\<close> without a radix: leading white space is skipped, an optional sign is
  read, a \<^verbatim>\<open>0x\<close>/\<^verbatim>\<open>0X\<close> prefix selects radix 16, and the longest prefix of digits of the
  radix is converted; no digit at all gives \<^verbatim>\<open>NaN\<close>.
\<close>

definition is_white_space :: "char \<Rightarrow> bool" where
  "is_white_space c = ((of_char c :: nat) \<in> {9, 10, 11, 12, 13, 32, 160})"

definition digit_value :: "char \<Rightarrow> nat option" where
  "digit_value c =
     (let n = (of_char c :: nat) in
      if 48 \<le> n \<and> n \<le> 57 then Some (n - 48)
      else if 97 \<le> n \<and> n \<le> 122 then Some (n - 87)
      else if 65 \<le> n \<and> n \<le> 90 then Some (n - 55)
      else None)"

definition in_radix :: "nat \<Rightarrow> char \<Rightarrow> bool" where
  "in_radix r c = (case digit_value c of Some d \<Rightarrow> d < r | None \<Rightarrow> False)"

definition digits_value :: "nat \<Rightarrow> string \<Rightarrow> nat" where
  "digits_value r ds =
     foldl (\<lambda>a c. a * r + (case digit_value c of None \<Rightarrow> 0 | Some d \<Rightarrow> d)) 0 ds"

definition strip_sign :: "string \<Rightarrow> bool \<times> string" where
  "strip_sign s =
     (case s of
        [] \<Rightarrow> (False, s)
      | c # rest \<Rightarrow>
          if c = CHR ''-'' then (True, rest)
          else if c = CHR ''+'' then (False, rest)
          else (False, s))"

definition strip_prefix :: "string \<Rightarrow> nat \<times> string" where
  "strip_prefix s =
     (if take 2 s = ''0x'' \<or> take 2 s = ''0X'' then (16, drop 2 s) else (10, s))"

definition parseInt :: "string \<Rightarrow> number" where
  "parseInt s =
     (let (neg, s2) = strip_sign (dropWhile is_white_space s);
          (radix, s3) = strip_prefix s2;
          ds = takeWhile (in_radix radix) s3
      in if ds = [] then NaN
         else Num ((if neg then - 1 else 1) * int (digits_value radix ds)))"

section \<open>The backing store as seen through the client\<close>

text \<open>
  The key-value store behind \<^verbatim>\<open>this.client\<close>: every key holds a string and an optional
  remaining time to live in seconds. \<open>available\<close> says whether the store answers; when it
  does not, every command fails. \<open>trace\<close> records the commands issued to the client.
\<close>

type_synonym key = string

datatype error = StoreUnavailable | InvalidExpire | SyntaxError

record entry =
  val :: string
  ttl :: "int option"

datatype command = GET key | SET key string | SETEX key int string | DEL key

record store =
  kv :: "key \<rightharpoonup> entry"
  available :: bool
  trace :: "command list"

definition issue :: "command \<Rightarrow> store \<Rightarrow> store" where
  "issue c s = s\<lparr>trace := trace s @ [c]\<rparr>"

text \<open>\<^verbatim>\<open>client.get\<close>: the string at the key, or \<^verbatim>\<open>null\<close>.\<close>

definition client_get :: "store \<Rightarrow> key \<Rightarrow> (error + string option) \<times> store" where
  "client_get s k =
     (if available s then (Inr (map_option val (kv s k)), issue (GET k) s)
      else (Inl StoreUnavailable, issue (GET k) s))"

text \<open>\<^verbatim>\<open>client.set\<close>: stores the value with no expiry.\<close>

definition client_set :: "store \<Rightarrow> key \<Rightarrow> string \<Rightarrow> (error + unit) \<times> store" where
  "client_set s k v =
     (if available s
      then (Inr (), issue (SET k v) (s\<lparr>kv := (kv s)(k \<mapsto> \<lparr>val = v, ttl = None\<rparr>)\<rparr>))
      else (Inl StoreUnavailable, issue (SET k v) s))"

text \<open>
  \<^verbatim>\<open>client.setex\<close>: stores the value with the given time to live; the store refuses a
  time to live that is not positive.
\<close>

definition client_setex :: "store \<Rightarrow> key \<Rightarrow> int \<Rightarrow> string \<Rightarrow> (error + unit) \<times> store" where
  "client_setex s k t v =
     (if \<not> available s then (Inl StoreUnavailable, issue (SETEX k t v) s)
      else if t \<le> 0 then (Inl InvalidExpire, issue (SETEX k t v) s)
      else (Inr (), issue (SETEX k t v) (s\<lparr>kv := (kv s)(k \<mapsto> \<lparr>val = v, ttl = Some t\<rparr>)\<rparr>)))"

text \<open>\<^verbatim>\<open>client.del\<close>: removes the key and answers how many keys were removed.\<close>

definition client_del :: "store \<Rightarrow> key \<Rightarrow> (error + nat) \<times> store" where
  "client_del s k =
     (if available s
      then (Inr (if kv s k = None then 0 else 1), issue (DEL k) (s\<lparr>kv := (kv s)(k := None)\<rparr>))
      else (Inl StoreUnavailable, issue (DEL k) s))"

text \<open>The passing of \<open>d\<close> seconds: times to live run down and expired keys disappear.\<close>

definition elapse :: "nat \<Rightarrow> store \<Rightarrow> store" where
  "elapse d s =
     s\<lparr>kv := (\<lambda>k. case kv s k of
                    None \<Rightarrow> None
                  | Some e \<Rightarrow>
                      (case ttl e of
                         None \<Rightarrow> Some e
                       | Some t \<Rightarrow> if t \<le> int d then None else Some (e\<lparr>ttl := Some (t - int d)\<rparr>)))\<rparr>"

section \<open>RedisService\<close>

text \<open>
  \<^verbatim>\<open>set(key, value, ttl?)\<close>: the test \<^verbatim>\<open>if (ttl)\<close> is false for a missing \<^verbatim>\<open>ttl\<close> and for 0.
  A time to live is a whole number of seconds here; the source's test is false for
  \<^verbatim>\<open>NaN\<close> as well, a value that this type does not hold, so statements about the time to
  live that is written are made for positive whole numbers.
\<close>

definition set_key :: "store \<Rightarrow> key \<Rightarrow> string \<Rightarrow> int option \<Rightarrow> (error + unit) \<times> store" where
  "set_key s k v t =
     (case t of
        None \<Rightarrow> client_set s k v
      | Some n \<Rightarrow> if n \<noteq> 0 then client_setex s k n v else client_set s k v)"

definition get_key :: "store \<Rightarrow> key \<Rightarrow> (error + string option) \<times> store" where
  "get_key s k = client_get s k"

definition del_key :: "store \<Rightarrow> key \<Rightarrow> (error + nat) \<times> store" where
  "del_key s k = client_del s k"

text \<open>
  \<^verbatim>\<open>current ? parseInt(current) : 0\<close>: \<^verbatim>\<open>null\<close> and the empty string are falsy.
\<close>

definition count_of :: "string option \<Rightarrow> number" where
  "count_of current =
     (case current of
        None \<Rightarrow> Num 0
      | Some c \<Rightarrow> if c \<noteq> [] then parseInt c else Num 0)"

definition rateLimit :: "store \<Rightarrow> key \<Rightarrow> int \<Rightarrow> int \<Rightarrow> (error + bool) \<times> store" where
  "rateLimit s k limit window =
     (case get_key s k of
        (Inl e, s1) \<Rightarrow> (Inl e, s1)
      | (Inr current, s1) \<Rightarrow>
          let count = count_of current in
          if number_ge count limit then (Inr False, s1)
          else (case set_key s1 k (toString (number_succ count)) (Some window) of
                  (Inl e, s2) \<Rightarrow> (Inl e, s2)
                | (Inr u, s2) \<Rightarrow> (Inr True, s2)))"

text \<open>Serial calls for one key: before each call the given number of seconds passes.\<close>

fun rateLimit_calls ::
  "store \<Rightarrow> key \<Rightarrow> int \<Rightarrow> int \<Rightarrow> nat list \<Rightarrow> (error + bool) list \<times> store" where
  "rateLimit_calls s k limit window [] = ([], s)"
| "rateLimit_calls s k limit window (d # ds) =
     (let (r, s1) = rateLimit (elapse d s) k limit window;
          (rs, s2) = rateLimit_calls s1 k limit window ds
      in (r # rs, s2))"

subsection \<open>Sessions\<close>

text \<open>
  \<^verbatim>\<open>JSON.stringify\<close> and \<^verbatim>\<open>JSON.parse\<close> belong to the language, not to the repository; the
  service is modelled over any pair of them. \<open>'d\<close> is the type of documents,
  \<open>json_null\<close> the value \<^verbatim>\<open>null\<close>, and a \<^verbatim>\<open>SyntaxError\<close> thrown by \<^verbatim>\<open>JSON.parse\<close> is an
  \<open>Inl\<close>.
\<close>

record 'd json_api =
  stringify :: "'d \<Rightarrow> string"
  parse :: "string \<Rightarrow> error + 'd"
  json_null :: "'d"

text \<open>
  A document is serializable when its text is not empty and \<^verbatim>\<open>JSON.parse\<close> reads the
  document back from it.
\<close>

definition serializable :: "'d json_api \<Rightarrow> 'd \<Rightarrow> bool" where
  "serializable J d = (stringify J d \<noteq> [] \<and> parse J (stringify J d) = Inr d)"

definition or_default :: "'a \<Rightarrow> 'a option \<Rightarrow> 'a" where
  "or_default d x = (case x of None \<Rightarrow> d | Some v \<Rightarrow> v)"

text \<open>\<^verbatim>\<open>cacheUserSession(userId, sessionData, ttl = 3600)\<close>\<close>

definition cacheUserSession ::
  "'d json_api \<Rightarrow> store \<Rightarrow> string \<Rightarrow> 'd \<Rightarrow> int option \<Rightarrow> (error + unit) \<times> store" where
  "cacheUserSession J s userId sessionData t =
     set_key s (''session:'' @ userId) (stringify J sessionData) (Some (or_default 3600 t))"

text \<open>\<^verbatim>\<open>return session ? JSON.parse(session) : null\<close>\<close>

definition getUserSession :: "'d json_api \<Rightarrow> store \<Rightarrow> string \<Rightarrow> (error + 'd) \<times> store" where
  "getUserSession J s userId =
     (case get_key s (''session:'' @ userId) of
        (Inl e, s1) \<Rightarrow> (Inl e, s1)
      | (Inr session, s1) \<Rightarrow>
          (case session of
             None \<Rightarrow> (Inr (json_null J), s1)
           | Some v \<Rightarrow> if v \<noteq> [] then (parse J v, s1) else (Inr (json_null J), s1)))"

definition invalidateUserSession :: "store \<Rightarrow> string \<Rightarrow> (error + unit) \<times> store" where
  "invalidateUserSession s userId =
     (case del_key s (''session:'' @ userId) of
        (Inl e, s1) \<Rightarrow> (Inl e, s1)
      | (Inr n, s1) \<Rightarrow> (Inr (), s1))"

section \<open>The middleware\<close>

text \<open>
  Of a request the middleware reads \<^verbatim>\<open>req.ip\<close> (which may be undefined),
  \<^verbatim>\<open>req.originalUrl\<close> and the header \<^verbatim>\<open>user-id\<close>. A middleware either sends a response or
  calls \<^verbatim>\<open>next()\<close>; the cache middleware may call \<^verbatim>\<open>next()\<close> after replacing \<^verbatim>\<open>res.json\<close>
  by a function that also writes the data to the store under a key with a time to live.
\<close>

record request =
  ip :: "string option"
  originalUrl :: string
  user_id :: "string option"

datatype 'd body = Doc 'd | ErrorBody string string

record 'd response =
  status :: nat
  body :: "'d body"

datatype 'd outcome = Responded "'d response" | Next | NextCaching key int

text \<open>A value inside a template literal: \<^verbatim>\<open>undefined\<close> prints as its name.\<close>

definition template :: "string option \<Rightarrow> string" where
  "template x = (case x of None \<Rightarrow> ''undefined'' | Some v \<Rightarrow> v)"

definition rateLimit_request ::
  "int \<Rightarrow> int \<Rightarrow> request \<Rightarrow> store \<Rightarrow> 'd outcome \<times> store" where
  "rateLimit_request limit window req s =
     (let k = ''rate_limit:'' @ template (ip req) in
      case rateLimit s k limit window of
        (Inl e, s1) \<Rightarrow> (Next, s1)
      | (Inr allowed, s1) \<Rightarrow>
          if \<not> allowed
          then (Responded \<lparr>status = 429, body = ErrorBody ''Rate limit exceeded''
                  (''Too many requests. Limit: '' @ toString (Num limit) @ '' requests per ''
                     @ toString (Num window) @ '' seconds'')\<rparr>, s1)
          else (Next, s1))"

text \<open>
  \<^verbatim>\<open>rateLimit(limit = 100, window = 3600)\<close> builds the middleware; the result is \<open>Inr\<close>
  of the request handler, since the function has no path that throws.
\<close>

definition rateLimit_middleware ::
  "int option \<Rightarrow> int option \<Rightarrow> error + (request \<Rightarrow> store \<Rightarrow> 'd outcome \<times> store)" where
  "rateLimit_middleware limit window =
     Inr (rateLimit_request (or_default 100 limit) (or_default 3600 window))"

text \<open>\<^verbatim>\<open>req.headers['user-id'] || req.ip\<close>: a missing or empty header gives way to the address.\<close>

definition apiRateLimit_request ::
  "int \<Rightarrow> int \<Rightarrow> request \<Rightarrow> store \<Rightarrow> 'd outcome \<times> store" where
  "apiRateLimit_request limit window req s =
     (let userId = (case user_id req of
                      None \<Rightarrow> ip req
                    | Some u \<Rightarrow> if u \<noteq> [] then Some u else ip req);
          k = ''api_rate_limit:'' @ template userId in
      case rateLimit s k limit window of
        (Inl e, s1) \<Rightarrow> (Next, s1)
      | (Inr allowed, s1) \<Rightarrow>
          if \<not> allowed
          then (Responded \<lparr>status = 429, body = ErrorBody ''API rate limit exceeded''
                  (''Too many API requests. Limit: '' @ toString (Num limit) @ '' requests per ''
                     @ toString (Num window) @ '' seconds'')\<rparr>, s1)
          else (Next, s1))"

definition apiRateLimit ::
  "int option \<Rightarrow> int option \<Rightarrow> error + (request \<Rightarrow> store \<Rightarrow> 'd outcome \<times> store)" where
  "apiRateLimit limit window =
     Inr (apiRateLimit_request (or_default 50 limit) (or_default 3600 window))"

text \<open>
  The cache middleware. A read that fails and a \<^verbatim>\<open>JSON.parse\<close> that throws both end in the
  \<^verbatim>\<open>catch\<close> block, which calls \<^verbatim>\<open>next()\<close> with \<^verbatim>\<open>res.json\<close> untouched.
\<close>

definition cache_request ::
  "'d json_api \<Rightarrow> int \<Rightarrow> request \<Rightarrow> store \<Rightarrow> 'd outcome \<times> store" where
  "cache_request J t req s =
     (let k = ''cache:'' @ originalUrl req in
      case get_key s k of
        (Inl e, s1) \<Rightarrow> (Next, s1)
      | (Inr cached, s1) \<Rightarrow>
          (case cached of
             None \<Rightarrow> (NextCaching k t, s1)
           | Some v \<Rightarrow>
               if v \<noteq> []
               then (case parse J v of
                       Inl e \<Rightarrow> (Next, s1)
                     | Inr d \<Rightarrow> (Responded \<lparr>status = 200, body = Doc d\<rparr>, s1))
               else (NextCaching k t, s1)))"

definition cache ::
  "'d json_api \<Rightarrow> int option \<Rightarrow> error + (request \<Rightarrow> store \<Rightarrow> 'd outcome \<times> store)" where
  "cache J t = Inr (cache_request J (or_default 300 t))"

text \<open>
  What the wrapped handler does with the response: it calls \<^verbatim>\<open>res.status(n).json(data)\<close>,
  or it never calls \<^verbatim>\<open>res.json\<close>.
\<close>

datatype 'd reply = Json nat 'd | Other

text \<open>
  A route \<^verbatim>\<open>cache(ttl), handler\<close> serving one request. The result is the response sent
  through \<^verbatim>\<open>res.json\<close> (if any), the number of times the handler ran, and the store. The
  replaced \<^verbatim>\<open>res.json\<close> calls \<^verbatim>\<open>redisService.set\<close> without waiting for it, so a failure of
  the write is not seen by anyone.
\<close>

definition serve ::
  "'d json_api \<Rightarrow> int \<Rightarrow> (request \<Rightarrow> 'd reply) \<Rightarrow> request \<Rightarrow> store
     \<Rightarrow> 'd response option \<times> nat \<times> store" where
  "serve J t handler req s =
     (case cache_request J t req s of
        (Responded r, s1) \<Rightarrow> (Some r, 0, s1)
      | (Next, s1) \<Rightarrow>
          (case handler req of
             Json n d \<Rightarrow> (Some \<lparr>status = n, body = Doc d\<rparr>, 1, s1)
           | Other \<Rightarrow> (None, 1, s1))
      | (NextCaching k t', s1) \<Rightarrow>
          (case handler req of
             Json n d \<Rightarrow>
               (Some \<lparr>status = n, body = Doc d\<rparr>, 1, snd (set_key s1 k (stringify J d) (Some t')))
           | Other \<Rightarrow> (None, 1, s1)))"

text \<open>\<^verbatim>\<open>invalidateCache(pattern)\<close> deletes the one key \<^verbatim>\<open>cache:pattern\<close> and calls \<^verbatim>\<open>next()\<close>.\<close>

definition invalidateCache_request :: "string \<Rightarrow> request \<Rightarrow> store \<Rightarrow> 'd outcome \<times> store" where
  "invalidateCache_request pattern req s =
     (case del_key s (''cache:'' @ pattern) of (r, s1) \<Rightarrow> (Next, s1))"

subsection \<open>Keys written or deleted\<close>

fun written_key :: "command \<Rightarrow> key option" where
  "written_key (GET k) = None"
| "written_key (SET k v) = Some k"
| "written_key (SETEX k t v) = Some k"
| "written_key (DEL k) = Some k"

definition touched :: "command list \<Rightarrow> key set" where
  "touched cs = set (List.map_filter written_key cs)"

text \<open>The three name spaces of the specification, and the four of the code.\<close>

definition reserved :: "key \<Rightarrow> bool" where
  "reserved k = (prefix ''rate_limit:'' k \<or> prefix ''cache:'' k \<or> prefix ''session:'' k)"

definition namespaced :: "key \<Rightarrow> bool" where
  "namespaced k = (reserved k \<or> prefix ''api_rate_limit:'' k)"

section \<open>An instance of the JSON interface: scalars\<close>

text \<open>
  To run the model on concrete inputs, \<^verbatim>\<open>JSON.stringify\<close> and \<^verbatim>\<open>JSON.parse\<close> are given for
  documents that are \<^verbatim>\<open>null\<close>, a boolean, an integer or a string of characters that need
  no escape. Arrays, objects, escapes inside strings and numbers with a fraction or an
  exponent are not covered by this instance; the theorems below hold for every pair of
  functions and use the instance only at the inputs of their examples.
\<close>

datatype scalar = JNull | JBool bool | JNumber int | JString string

definition plain_char :: "char \<Rightarrow> bool" where
  "plain_char c = (32 \<le> (of_char c :: nat) \<and> c \<noteq> CHR 0x22 \<and> c \<noteq> CHR 0x5C)"

fun stringify_scalar :: "scalar \<Rightarrow> string" where
  "stringify_scalar JNull = ''null''"
| "stringify_scalar (JBool b) = (if b then ''true'' else ''false'')"
| "stringify_scalar (JNumber i) = toString (Num i)"
| "stringify_scalar (JString s) = CHR 0x22 # s @ [CHR 0x22]"

definition json_space :: "char \<Rightarrow> bool" where
  "json_space c = ((of_char c :: nat) \<in> {9, 10, 13, 32})"

definition is_digit :: "char \<Rightarrow> bool" where
  "is_digit c = (48 \<le> (of_char c :: nat) \<and> (of_char c :: nat) \<le> 57)"

definition int_literal :: "string \<Rightarrow> bool" where
  "int_literal t =
     (let ds = (if take 1 t = ''-'' then drop 1 t else t)
      in ds \<noteq> [] \<and> list_all is_digit ds \<and> (length ds = 1 \<or> take 1 ds \<noteq> ''0''))"

definition string_literal :: "string \<Rightarrow> bool" where
  "string_literal t =
     (2 \<le> length t \<and> take 1 t = [CHR 0x22] \<and> drop (length t - 1) t = [CHR 0x22]
      \<and> list_all plain_char (butlast (drop 1 t)))"

definition trim :: "string \<Rightarrow> string" where
  "trim s = rev (dropWhile json_space (rev (dropWhile json_space s)))"

definition parse_scalar :: "string \<Rightarrow> error + scalar" where
  "parse_scalar s =
     (let t = trim s in
      if t = ''null'' then Inr JNull
      else if t = ''true'' then Inr (JBool True)
      else if t = ''false'' then Inr (JBool False)
      else if int_literal t then
        (case parseInt t of Num i \<Rightarrow> Inr (JNumber i) | NaN \<Rightarrow> Inl SyntaxError)
      else if string_literal t then Inr (JString (butlast (drop 1 t)))
      else Inl SyntaxError)"

fun plain_scalar :: "scalar \<Rightarrow> bool" where
  "plain_scalar (JString s) = list_all plain_char s"
| "plain_scalar d = True"

definition scalar_json :: "scalar json_api" where
  "scalar_json = \<lparr>stringify = stringify_scalar, parse = parse_scalar, json_null = JNull\<rparr>"

section \<open>Stores and requests used as examples\<close>

definition fresh_store :: store where
  "fresh_store = \<lparr>kv = Map.empty, available = True, trace = []\<rparr>"

definition store_with :: "key \<Rightarrow> string \<Rightarrow> int option \<Rightarrow> store" where
  "store_with k v t = \<lparr>kv = [k \<mapsto> \<lparr>val = v, ttl = t\<rparr>], available = True, trace = []\<rparr>"

definition request1 :: request where
  "request1 = \<lparr>ip = Some ''10.0.0.1'', originalUrl = ''/api/data'', user_id = Some ''u1''\<rparr>"

definition down_store :: store where
  "down_store = \<lparr>kv = [''rate_limit:10.0.0.1'' \<mapsto> \<lparr>val = ''100'', ttl = Some 60\<rparr>], available = False, trace = []\<rparr>"

definition corrupt_store :: store where
  "corrupt_store =
     \<lparr>kv = [''session:u1'' \<mapsto> \<lparr>val = ''not json'', ttl = Some 60\<rparr>,
            ''cache:/api/data'' \<mapsto> \<lparr>val = ''not json'', ttl = Some 60\<rparr>],
      available = True, trace = []\<rparr>"

text \<open>The response a middleware sent, if it sent one.\<close>

fun sent :: "'d outcome \<Rightarrow> 'd response option" where
  "sent (Responded r) = Some r"
| "sent Next = None"
| "sent (NextCaching k t) = None"

section \<open>The invariant of a counter\<close>

text \<open>
  The state of a counter between two calls: \<open>c\<close> calls were admitted, the key is absent
  when \<open>c = 0\<close> and holds \<open>c\<close> with the full window otherwise.
\<close>

definition counted :: "store \<Rightarrow> key \<Rightarrow> int \<Rightarrow> int \<Rightarrow> bool" where
  "counted s k window c =
     (available s \<and>
      (if c = 0 then kv s k = None
       else kv s k = Some \<lparr>val = toString (Num c), ttl = Some window\<rparr>))"


section \<open>Decimal strings read back by parseInt\<close>

lemma digit_value_digit_char: "d < 10 \<Longrightarrow> digit_value (digit_char d) = Some d"
  by (simp add: digit_value_def digit_char_def of_char_of)

lemma dec_digits_chars: "c \<in> set (dec_digits n) \<Longrightarrow> \<exists>d<10. c = digit_char d"
proof (induction n rule: dec_digits.induct)
  case (1 n)
  show ?case
  proof (cases "n < 10")
    case True
    with "1.prems" show ?thesis by (auto simp: dec_digits.simps [of n])
  next
    case False
    with "1.prems" have "c \<in> set (dec_digits (n div 10)) \<or> c = digit_char (n mod 10)"
      by (auto simp: dec_digits.simps [of n])
    then show ?thesis
    proof
      assume "c \<in> set (dec_digits (n div 10))"
      with False "1.IH" show ?thesis by simp
    next
      assume "c = digit_char (n mod 10)"
      moreover have "n mod 10 < 10" by simp
      ultimately show ?thesis by blast
    qed
  qed
qed

lemma dec_digits_nonempty: "dec_digits n \<noteq> []"
  by (subst dec_digits.simps) simp

lemma digits_value_snoc:
  "digits_value r (ds @ [c]) =
     digits_value r ds * r + (case digit_value c of None \<Rightarrow> 0 | Some d \<Rightarrow> d)"
  by (simp add: digits_value_def)

lemma digits_value_dec_digits: "digits_value 10 (dec_digits n) = n"
proof (induction n rule: dec_digits.induct)
  case (1 n)
  show ?case
  proof (cases "n < 10")
    case True
    then show ?thesis
      by (simp add: dec_digits.simps [of n] digits_value_def digit_value_digit_char)
  next
    case False
    with "1.IH" have "digits_value 10 (dec_digits (n div 10)) = n div 10" by simp
    with False show ?thesis
      by (simp add: dec_digits.simps [of n] digits_value_snoc digit_value_digit_char)
  qed
qed

lemma digit_char_code: "d < 10 \<Longrightarrow> (of_char (digit_char d) :: nat) = 48 + d"
  by (simp add: digit_char_def of_char_of)

lemma digit_char_not_sign:
  assumes "d < 10"
  shows "digit_char d \<noteq> CHR ''-''" and "digit_char d \<noteq> CHR ''+''"
    and "digit_char d \<noteq> CHR ''x''" and "digit_char d \<noteq> CHR ''X''"
proof -
  note o = digit_char_code [OF assms]
  have "(of_char (digit_char d) :: nat) \<noteq> of_char CHR ''-''" using o by simp
  then show "digit_char d \<noteq> CHR ''-''" by force
  have "(of_char (digit_char d) :: nat) \<noteq> of_char CHR ''+''" using o by simp
  then show "digit_char d \<noteq> CHR ''+''" by force
  have "(of_char (digit_char d) :: nat) \<noteq> of_char CHR ''x''" using o assms by simp
  then show "digit_char d \<noteq> CHR ''x''" by force
  have "(of_char (digit_char d) :: nat) \<noteq> of_char CHR ''X''" using o assms by simp
  then show "digit_char d \<noteq> CHR ''X''" by force
qed

lemma digit_char_in_radix: "d < 10 \<Longrightarrow> in_radix 10 (digit_char d)"
  by (simp add: in_radix_def digit_value_digit_char)

lemma digit_char_not_space: "d < 10 \<Longrightarrow> \<not> is_white_space (digit_char d)"
  by (simp add: is_white_space_def digit_char_code)

lemma dec_digits_head: "\<exists>d cs. d < 10 \<and> dec_digits n = digit_char d # cs"
proof (cases "dec_digits n")
  case Nil
  then show ?thesis using dec_digits_nonempty [of n] by simp
next
  case (Cons c cs)
  then have "c \<in> set (dec_digits n)" by simp
  then obtain d where "d < 10" "c = digit_char d" using dec_digits_chars by blast
  with Cons show ?thesis by blast
qed

lemma takeWhile_dec_digits: "takeWhile (in_radix 10) (dec_digits n) = dec_digits n"
proof -
  have "\<forall>c\<in>set (dec_digits n). in_radix 10 c"
    using dec_digits_chars digit_char_in_radix by blast
  then show ?thesis by (simp only: takeWhile_eq_all_conv)
qed

lemma dropWhile_dec_digits: "dropWhile is_white_space (dec_digits n) = dec_digits n"
proof -
  obtain d cs where d: "d < 10" and eq: "dec_digits n = digit_char d # cs"
    using dec_digits_head by blast
  have "\<not> is_white_space (digit_char d)" using d by (rule digit_char_not_space)
  then show ?thesis unfolding eq by simp
qed

lemma strip_sign_dec_digits: "strip_sign (dec_digits n) = (False, dec_digits n)"
proof -
  obtain d cs where d: "d < 10" and eq: "dec_digits n = digit_char d # cs"
    using dec_digits_head by blast
  have "digit_char d \<noteq> CHR ''-''" "digit_char d \<noteq> CHR ''+''"
    using digit_char_not_sign [OF d] by blast+
  then show ?thesis unfolding eq strip_sign_def by simp
qed

lemma strip_prefix_dec_digits: "strip_prefix (dec_digits n) = (10, dec_digits n)"
proof -
  have codes: "(of_char c :: nat) \<le> 57" if mem: "c \<in> set (dec_digits n)" for c
  proof -
    obtain d where "d < 10" "c = digit_char d"
      using dec_digits_chars [OF mem] by blast
    then show ?thesis by (simp add: digit_char_code)
  qed
  have nx: "CHR ''x'' \<notin> set (dec_digits n)" "CHR ''X'' \<notin> set (dec_digits n)"
    using codes [of "CHR ''x''"] codes [of "CHR ''X''"] by auto
  have "take 2 (dec_digits n) \<noteq> ''0x''"
  proof
    assume "take 2 (dec_digits n) = ''0x''"
    then have "CHR ''x'' \<in> set (take 2 (dec_digits n))" by simp
    then show False using nx(1) by (blast dest: in_set_takeD)
  qed
  moreover have "take 2 (dec_digits n) \<noteq> ''0X''"
  proof
    assume "take 2 (dec_digits n) = ''0X''"
    then have "CHR ''X'' \<in> set (take 2 (dec_digits n))" by simp
    then show False using nx(2) by (blast dest: in_set_takeD)
  qed
  ultimately show ?thesis
    by (simp add: strip_prefix_def)
qed

lemma parseInt_toString: "parseInt (toString (Num i)) = Num i"
proof (cases "i < 0")
  case True
  have "dropWhile is_white_space (CHR ''-'' # dec_digits (nat (- i))) = CHR ''-'' # dec_digits (nat (- i))"
    by (simp add: is_white_space_def)
  then show ?thesis using True
    by (simp add: parseInt_def strip_sign_def strip_prefix_dec_digits takeWhile_dec_digits
        dec_digits_nonempty digits_value_dec_digits)
next
  case False
  then show ?thesis
    by (simp add: parseInt_def strip_prefix_dec_digits takeWhile_dec_digits dropWhile_dec_digits
        strip_sign_dec_digits dec_digits_nonempty digits_value_dec_digits)
qed

lemma toString_nonempty: "toString n \<noteq> []"
  by (cases n) (simp_all add: dec_digits_nonempty)

lemma count_of_toString: "count_of (Some (toString (Num i))) = Num i"
  by (simp add: count_of_def toString_nonempty parseInt_toString del: toString.simps)

subsection \<open>The service on an available store\<close>

lemma get_key_available:
  "available s \<Longrightarrow> get_key s k = (Inr (map_option val (kv s k)), s\<lparr>trace := trace s @ [GET k]\<rparr>)"
  by (simp add: get_key_def client_get_def issue_def)

lemma get_key_unavailable:
  "\<not> available s \<Longrightarrow> get_key s k = (Inl StoreUnavailable, s\<lparr>trace := trace s @ [GET k]\<rparr>)"
  by (simp add: get_key_def client_get_def issue_def)

lemma set_key_setex:
  "available s \<Longrightarrow> 0 < t \<Longrightarrow>
   set_key s k v (Some t) =
     (Inr (), s\<lparr>kv := (kv s)(k \<mapsto> \<lparr>val = v, ttl = Some t\<rparr>), trace := trace s @ [SETEX k t v]\<rparr>)"
  by (simp add: set_key_def client_setex_def issue_def)

lemma set_key_zero:
  "available s \<Longrightarrow>
   set_key s k v (Some 0) =
     (Inr (), s\<lparr>kv := (kv s)(k \<mapsto> \<lparr>val = v, ttl = None\<rparr>), trace := trace s @ [SET k v]\<rparr>)"
  by (simp add: set_key_def client_set_def issue_def)

lemma set_key_negative:
  "available s \<Longrightarrow> t < 0 \<Longrightarrow>
   set_key s k v (Some t) = (Inl InvalidExpire, s\<lparr>trace := trace s @ [SETEX k t v]\<rparr>)"
  by (simp add: set_key_def client_setex_def issue_def)

lemma rateLimit_reject:
  assumes "available s" and "count_of (map_option val (kv s k)) = Num c" and "limit \<le> c"
  shows "rateLimit s k limit window = (Inr False, s\<lparr>trace := trace s @ [GET k]\<rparr>)"
  using assms by (simp add: rateLimit_def get_key_available)

lemma rateLimit_admit:
  assumes "available s" and "count_of (map_option val (kv s k)) = Num c" and "c < limit"
    and "0 < window"
  shows "rateLimit s k limit window =
    (Inr True, s\<lparr>kv := (kv s)(k \<mapsto> \<lparr>val = toString (Num (c + 1)), ttl = Some window\<rparr>),
                  trace := trace s @ [GET k, SETEX k window (toString (Num (c + 1)))]\<rparr>)"
  using assms
  by (simp add: rateLimit_def get_key_available set_key_setex del: toString.simps)

lemma count_of_parse:
  "parseInt v = Num c \<Longrightarrow> count_of (Some v) = Num c"
proof -
  assume p: "parseInt v = Num c"
  have "v \<noteq> []"
  proof
    assume "v = []"
    then have "parseInt v = NaN"
      by (simp add: parseInt_def strip_sign_def strip_prefix_def)
    with p show False by simp
  qed
  with p show ?thesis by (simp add: count_of_def)
qed

lemma available_elapse [simp]: "available (elapse d s) = available s"
  by (simp add: elapse_def)

lemma trace_elapse [simp]: "trace (elapse d s) = trace s"
  by (simp add: elapse_def)

lemma kv_elapse_None: "kv s k = None \<Longrightarrow> kv (elapse d s) k = None"
  by (simp add: elapse_def)

lemma kv_elapse_live:
  "kv s k = Some \<lparr>val = v, ttl = Some t\<rparr> \<Longrightarrow> int d < t \<Longrightarrow>
   kv (elapse d s) k = Some \<lparr>val = v, ttl = Some (t - int d)\<rparr>"
  by (simp add: elapse_def)

lemma kv_elapse_persistent:
  "kv s k = Some \<lparr>val = v, ttl = None\<rparr> \<Longrightarrow> kv (elapse d s) k = Some \<lparr>val = v, ttl = None\<rparr>"
  by (simp add: elapse_def)

lemma counted_elapse:
  assumes "counted s k window c" and "int d < window"
  shows "available (elapse d s)"
    and "count_of (map_option val (kv (elapse d s) k)) = Num c"
proof -
  show "available (elapse d s)" using assms(1) by (simp add: counted_def)
  show "count_of (map_option val (kv (elapse d s) k)) = Num c"
  proof (cases "c = 0")
    case True
    then have "kv (elapse d s) k = None"
      using assms(1) by (simp add: counted_def kv_elapse_None)
    with True show ?thesis by (simp add: count_of_def)
  next
    case False
    then have "kv s k = Some \<lparr>val = toString (Num c), ttl = Some window\<rparr>"
      using assms(1) by (simp add: counted_def)
    then have "kv (elapse d s) k = Some \<lparr>val = toString (Num c), ttl = Some (window - int d)\<rparr>"
      using assms(2) by (rule kv_elapse_live)
    then show ?thesis by (simp add: count_of_toString del: toString.simps)
  qed
qed

lemma rateLimit_calls_counted:
  assumes "counted s k window c" and "0 \<le> c" and "c \<le> limit" and "0 < window"
    and "\<forall>d\<in>set ds. int d < window"
    and "int (length ds) = limit - c + 1"
  shows "fst (rateLimit_calls s k limit window ds) =
           replicate (nat (limit - c)) (Inr True) @ [Inr False]"
  using assms
proof (induction ds arbitrary: s c)
  case Nil
  then show ?case by simp
next
  case (Cons d ds)
  have d: "int d < window" using Cons.prems(5) by simp
  note el = counted_elapse [OF Cons.prems(1) d]
  show ?case
  proof (cases "c < limit")
    case True
    let ?s1 = "snd (rateLimit (elapse d s) k limit window)"
    have step: "rateLimit (elapse d s) k limit window =
        (Inr True, (elapse d s)\<lparr>kv := (kv (elapse d s))(k \<mapsto> \<lparr>val = toString (Num (c + 1)), ttl = Some window\<rparr>),
           trace := trace (elapse d s) @ [GET k, SETEX k window (toString (Num (c + 1)))]\<rparr>)"
      using el True Cons.prems(4) by (rule rateLimit_admit)
    have c1: "counted ?s1 k window (c + 1)"
      using step el(1) Cons.prems(2) by (simp add: counted_def del: toString.simps)
    have "fst (rateLimit_calls ?s1 k limit window ds) =
            replicate (nat (limit - (c + 1))) (Inr True) @ [Inr False]"
      using c1 Cons.prems True by (intro Cons.IH) auto
    moreover have "nat (limit - c) = Suc (nat (limit - (c + 1)))"
      using True by simp
    ultimately show ?thesis
      using step by (simp add: split_beta del: toString.simps)
  next
    case False
    then have eq: "c = limit" using Cons.prems(3) by simp
    then have "ds = []" using Cons.prems(6) by simp
    moreover have "rateLimit (elapse d s) k limit window =
        (Inr False, (elapse d s)\<lparr>trace := trace (elapse d s) @ [GET k]\<rparr>)"
      using el eq by (intro rateLimit_reject) auto
    ultimately show ?thesis using eq by simp
  qed
qed

section \<open>Properties of the rate limiter\<close>

text \<open>
  C1. For every \<open>limit \<ge> 1\<close> and \<open>window \<ge> 1\<close>, starting from a store in which the counter
  key is absent, of \<open>limit + 1\<close> serial calls that each come less than \<open>window\<close> seconds
  after the one before, the first \<open>limit\<close> answer \<^verbatim>\<open>true\<close> and the last answers \<^verbatim>\<open>false\<close>.
  The limit is at most \<open>2^53\<close>, so that every count up to it is exact in the source.
\<close>

theorem rateLimit_admits_limit_then_rejects:
  assumes "1 \<le> limit" and "1 \<le> window"
    and "limit \<le> 2 ^ 53"
    and "available s" and "kv s k = None"
    and "length ds = nat limit + 1" and "\<forall>d\<in>set ds. int d < window"
  shows "fst (rateLimit_calls s k limit window ds) = replicate (nat limit) (Inr True) @ [Inr False]"
proof -
  have "counted s k window 0" using assms(4,5) by (simp add: counted_def)
  moreover have "int (length ds) = limit - 0 + 1" using assms(1,6) by simp
  ultimately have "fst (rateLimit_calls s k limit window ds) =
      replicate (nat (limit - 0)) (Inr True) @ [Inr False]"
    using assms(1,2,7) by (intro rateLimit_calls_counted) auto
  then show ?thesis by simp
qed

text \<open>
  Three calls with limit 2 and a window of 60 seconds, after 0, 1 and 59 seconds.
\<close>

theorem rateLimit_admits_limit_then_rejects_witness:
  "(1::int) \<le> 2 \<and> (2::int) \<le> 2 ^ 53
   \<and> available fresh_store \<and> kv fresh_store ''rate_limit:10.0.0.1'' = None
   \<and> list_all (\<lambda>d. int d < 60) [0, 1, 59]
   \<and> fst (rateLimit_calls fresh_store ''rate_limit:10.0.0.1'' 2 60 [0, 1, 59])
       = [Inr True, Inr True, Inr False]"
proof -
  have a: "available fresh_store" and b: "kv fresh_store ''rate_limit:10.0.0.1'' = None"
    by (simp_all add: fresh_store_def)
  have c: "\<forall>d\<in>set [0, 1, 59 :: nat]. int d < 60" by simp
  have "fst (rateLimit_calls fresh_store ''rate_limit:10.0.0.1'' 2 60 [0, 1, 59])
       = replicate (nat 2) (Inr True) @ [Inr False]"
    using a b c by (intro rateLimit_admits_limit_then_rejects) simp_all
  moreover have "replicate (nat 2) (Inr True :: error + bool) @ [Inr False] = [Inr True, Inr True, Inr False]"
    by (simp add: numeral_2_eq_2)
  ultimately show ?thesis using a b by simp
qed

text \<open>
  C2. When the counter read at the key parses to a value at least \<open>limit\<close>, the call
  answers \<^verbatim>\<open>false\<close> and issues only the read: no write command is sent, and the value and
  the time to live of every key are what they were.
\<close>

theorem rateLimit_rejects_without_write:
  assumes "available s"
    and "kv s k = Some e"
    and "parseInt (val e) = Num c"
    and "limit \<le> c"
  shows "rateLimit s k limit window = (Inr False, s\<lparr>trace := trace s @ [GET k]\<rparr>)"
proof -
  have "count_of (map_option val (kv s k)) = Num c"
    using assms(2,3) by (simp add: count_of_parse)
  with assms(1) show ?thesis using assms(4) by (rule rateLimit_reject)
qed

lemma parseInt_7: "parseInt ''7'' = Num 7"
  by code_simp

text \<open>
  A counter of 7 with 42 seconds to live, checked against limit 5.
\<close>

theorem rateLimit_rejects_without_write_witness:
  "parseInt ''7'' = Num 7
   \<and> rateLimit (store_with ''rate_limit:10.0.0.1'' ''7'' (Some 42)) ''rate_limit:10.0.0.1'' 5 60
     = (Inr False, (store_with ''rate_limit:10.0.0.1'' ''7'' (Some 42))\<lparr>trace := [GET ''rate_limit:10.0.0.1'']\<rparr>)"
proof -
  let ?s = "store_with ''rate_limit:10.0.0.1'' ''7'' (Some 42)"
  have a: "available ?s" and b: "kv ?s ''rate_limit:10.0.0.1'' = Some \<lparr>val = ''7'', ttl = Some 42\<rparr>"
    and t: "trace ?s = []"
    by (simp_all add: store_with_def)
  have c: "parseInt (val \<lparr>val = ''7'', ttl = Some 42\<rparr>) = Num 7" using parseInt_7 by simp
  have "rateLimit ?s ''rate_limit:10.0.0.1'' 5 60 = (Inr False, ?s\<lparr>trace := trace ?s @ [GET ''rate_limit:10.0.0.1'']\<rparr>)"
    using a b c by (rule rateLimit_rejects_without_write) simp
  then show ?thesis using parseInt_7 t by simp
qed

text \<open>
  With \<open>window = 0\<close> the test \<^verbatim>\<open>if (ttl)\<close> in \<^verbatim>\<open>set\<close> fails, the counter is written by
  \<^verbatim>\<open>client.set\<close>, and after the admitted call the key has no time to live at all.
\<close>

theorem rateLimit_window_zero_counterexample:
  "fst (rateLimit fresh_store ''rate_limit:10.0.0.1'' 5 0) = Inr True
   \<and> kv (snd (rateLimit fresh_store ''rate_limit:10.0.0.1'' 5 0)) ''rate_limit:10.0.0.1''
       = Some \<lparr>val = ''1'', ttl = None\<rparr>"
proof -
  have a: "available fresh_store" by (simp add: fresh_store_def)
  have c: "count_of (map_option val (kv fresh_store ''rate_limit:10.0.0.1'')) = Num 0"
    by (simp add: fresh_store_def count_of_def)
  have t: "toString (Num 1) = ''1''" by code_simp
  show ?thesis
    using a by (simp add: rateLimit_def get_key_available set_key_zero c t del: toString.simps)
qed

text \<open>
  C3 (amended). Every admitted call whose \<open>window\<close> is a positive whole number leaves at
  the key the count read plus one (absent and empty read as 0) with a time to live of
  exactly \<open>window\<close>, whatever time to live the key had before. The count read is
  \<^verbatim>\<open>NaN\<close> or an integer of magnitude below \<open>2^53\<close>, where the source's \<^verbatim>\<open>count + 1\<close> is the
  exact successor.
\<close>

theorem rateLimit_admitted_sets_window_ttl:
  assumes "rateLimit s k limit window = (Inr True, s')" and "0 < window"
    and "exact (count_of (map_option val (kv s k)))"
  shows "kv s' k = Some \<lparr>val = toString (number_succ (count_of (map_option val (kv s k)))),
                         ttl = Some window\<rparr>"
proof -
  have av: "available s"
  proof (rule ccontr)
    assume "\<not> available s"
    then have "fst (rateLimit s k limit window) = Inl StoreUnavailable"
      by (simp add: rateLimit_def get_key_unavailable)
    with assms(1) show False by simp
  qed
  let ?v = "toString (number_succ (count_of (map_option val (kv s k))))"
  let ?s1 = "s\<lparr>trace := trace s @ [GET k]\<rparr>"
  have nge: "\<not> number_ge (count_of (map_option val (kv s k))) limit"
    using assms(1) av by (auto simp: rateLimit_def get_key_available)
  then have r: "rateLimit s k limit window =
      (case set_key ?s1 k ?v (Some window) of (Inl e, s2) \<Rightarrow> (Inl e, s2) | (Inr u, s2) \<Rightarrow> (Inr True, s2))"
    using av by (simp add: rateLimit_def get_key_available del: toString.simps)
  have pos: "0 < window" by (rule assms(2))
  have "set_key ?s1 k ?v (Some window) =
      (Inr (), ?s1\<lparr>kv := (kv ?s1)(k \<mapsto> \<lparr>val = ?v, ttl = Some window\<rparr>), trace := trace ?s1 @ [SETEX k window ?v]\<rparr>)"
    using av pos by (intro set_key_setex) simp_all
  with r assms(1) show ?thesis by auto
qed

lemma toString_small: "toString (Num 1) = ''1''" "toString (Num 4) = ''4''"
  by code_simp+

lemma count_of_3: "count_of (Some ''3'') = Num 3"
  by code_simp

text \<open>
  A counter of 3 with 17 seconds left is replaced by 4 with 60 seconds.
\<close>

theorem rateLimit_admitted_sets_window_ttl_witness:
  "exact (count_of (Some ''3''))
   \<and> fst (rateLimit (store_with ''rate_limit:10.0.0.1'' ''3'' (Some 17)) ''rate_limit:10.0.0.1'' 5 60) = Inr True
   \<and> kv (snd (rateLimit (store_with ''rate_limit:10.0.0.1'' ''3'' (Some 17)) ''rate_limit:10.0.0.1'' 5 60))
        ''rate_limit:10.0.0.1'' = Some \<lparr>val = ''4'', ttl = Some 60\<rparr>"
proof -
  let ?k = "''rate_limit:10.0.0.1''"
  let ?s = "store_with ?k ''3'' (Some 17)"
  have a: "available ?s" by (simp add: store_with_def)
  have c: "count_of (map_option val (kv ?s ?k)) = Num 3"
    using count_of_3 by (simp add: store_with_def)
  have f: "fst (rateLimit ?s ?k 5 60) = Inr True"
    using rateLimit_admit [OF a c, of 5 60] by simp
  then have h: "rateLimit ?s ?k 5 60 = (Inr True, snd (rateLimit ?s ?k 5 60))"
    by (metis prod.collapse)
  have "kv (snd (rateLimit ?s ?k 5 60)) ?k =
      Some \<lparr>val = toString (number_succ (count_of (map_option val (kv ?s ?k)))), ttl = Some 60\<rparr>"
    using h by (rule rateLimit_admitted_sets_window_ttl) (simp_all add: c)
  then show ?thesis using f c count_of_3 toString_small by (simp del: toString.simps)
qed

text \<open>
  C10 (amended). For every \<open>limit \<le> 0\<close> and every store in which the key is absent or holds
  a counter that reads as an integer at least \<open>limit\<close>, the call answers \<^verbatim>\<open>false\<close> and
  issues only the read; on a fresh key no counter is ever created.
\<close>

theorem rateLimit_nonpositive_limit_rejects:
  assumes "limit \<le> 0" and "available s"
    and "kv s k = None \<or> (\<exists>c. count_of (map_option val (kv s k)) = Num c \<and> limit \<le> c)"
  shows "rateLimit s k limit window = (Inr False, s\<lparr>trace := trace s @ [GET k]\<rparr>)"
proof -
  from assms(3) show ?thesis
  proof
    assume "kv s k = None"
    then have "count_of (map_option val (kv s k)) = Num 0" by (simp add: count_of_def)
    with assms(2) show ?thesis using assms(1) by (rule rateLimit_reject)
  next
    assume "\<exists>c. count_of (map_option val (kv s k)) = Num c \<and> limit \<le> c"
    then obtain c where "count_of (map_option val (kv s k)) = Num c" and "limit \<le> c"
      by blast
    with assms(2) show ?thesis by (rule rateLimit_reject)
  qed
qed

text \<open>
  A fresh key with limit \<open>-3\<close>.
\<close>

theorem rateLimit_nonpositive_limit_rejects_witness:
  "available fresh_store \<and> kv fresh_store ''rate_limit:10.0.0.1'' = None
   \<and> rateLimit fresh_store ''rate_limit:10.0.0.1'' (- 3) 60
       = (Inr False, fresh_store\<lparr>trace := [GET ''rate_limit:10.0.0.1'']\<rparr>)"
proof -
  have a: "available fresh_store" and b: "kv fresh_store ''rate_limit:10.0.0.1'' = None"
    and t: "trace fresh_store = []"
    by (simp_all add: fresh_store_def)
  have "rateLimit fresh_store ''rate_limit:10.0.0.1'' (- 3) 60
       = (Inr False, fresh_store\<lparr>trace := trace fresh_store @ [GET ''rate_limit:10.0.0.1'']\<rparr>)"
    using a b by (intro rateLimit_nonpositive_limit_rejects) simp_all
  then show ?thesis using a b t by simp
qed

lemma parseInt_abc: "parseInt ''abc'' = NaN"
  by code_simp

text \<open>
  A key holding \<^verbatim>\<open>abc\<close> reads as \<^verbatim>\<open>NaN\<close>, which is not at least 0: with limit 0 the call
  answers \<^verbatim>\<open>true\<close> and writes \<^verbatim>\<open>NaN\<close> to the key.
\<close>

theorem rateLimit_nonpositive_limit_counterexample:
  "fst (rateLimit (store_with ''rate_limit:10.0.0.1'' ''abc'' None) ''rate_limit:10.0.0.1'' 0 60) = Inr True
   \<and> kv (snd (rateLimit (store_with ''rate_limit:10.0.0.1'' ''abc'' None) ''rate_limit:10.0.0.1'' 0 60))
        ''rate_limit:10.0.0.1'' = Some \<lparr>val = ''NaN'', ttl = Some 60\<rparr>"
proof -
  let ?k = "''rate_limit:10.0.0.1''"
  let ?s = "store_with ?k ''abc'' None"
  have a: "available ?s" by (simp add: store_with_def)
  have c: "count_of (map_option val (kv ?s ?k)) = NaN"
    using parseInt_abc by (simp add: store_with_def count_of_def)
  show ?thesis
    using a by (simp add: rateLimit_def get_key_available set_key_setex c)
qed

section \<open>Properties of the middleware\<close>

lemma set_key_unavailable:
  "\<not> available s \<Longrightarrow> fst (set_key s k v t) = Inl StoreUnavailable"
  by (simp add: set_key_def client_set_def client_setex_def split: option.splits)

lemma rateLimit_unavailable:
  "\<not> available s \<Longrightarrow>
   rateLimit s k limit window = (Inl StoreUnavailable, s\<lparr>trace := trace s @ [GET k]\<rparr>)"
  by (simp add: rateLimit_def get_key_unavailable)

lemma cache_request_unavailable:
  "\<not> available s \<Longrightarrow> cache_request J t req s = (Next, s\<lparr>trace := trace s @ [GET (''cache:'' @ originalUrl req)]\<rparr>)"
  by (simp add: cache_request_def get_key_unavailable)

text \<open>
  C4. When the store does not answer, the rate-limit middleware (either of the two) calls
  \<^verbatim>\<open>next()\<close> and sends no 429, the cache middleware calls \<^verbatim>\<open>next()\<close>, and the wrapped
  handler runs.
\<close>

theorem middleware_fail_open:
  assumes "\<not> available s"
  shows "fst (rateLimit_request limit window req s) = (Next :: 'd outcome)
       \<and> fst (apiRateLimit_request limit window req s) = (Next :: 'd outcome)
       \<and> fst (cache_request J t req s) = (Next :: 'd outcome)
       \<and> fst (snd (serve J t handler req s)) = 1"
proof -
  have "fst (apiRateLimit_request limit window req s) = (Next :: 'd outcome)"
    using assms by (simp add: apiRateLimit_request_def rateLimit_unavailable)
  moreover
  have "fst (rateLimit_request limit window req s) = (Next :: 'd outcome)"
    using assms by (simp add: rateLimit_request_def rateLimit_unavailable)
  moreover have "fst (cache_request J t req s) = Next"
    using assms by (simp add: cache_request_unavailable)
  moreover have "fst (snd (serve J t handler req s)) = 1"
    using assms by (simp add: serve_def cache_request_unavailable split: reply.splits)
  ultimately show ?thesis by simp
qed

text \<open>
  A store that is down, although it holds a counter of 100 for the caller.
\<close>

theorem middleware_fail_open_witness:
  "\<not> available down_store
   \<and> fst (rateLimit_request 5 60 request1 down_store) = (Next :: scalar outcome)
   \<and> fst (apiRateLimit_request 5 60 request1 down_store) = (Next :: scalar outcome)
   \<and> fst (cache_request scalar_json 300 request1 down_store) = Next
   \<and> fst (snd (serve scalar_json 300 (\<lambda>r. Json 200 (JString ''fresh'')) request1 down_store)) = 1"
proof -
  have a: "\<not> available down_store" by (simp add: down_store_def)
  show ?thesis
    using a middleware_fail_open [OF a, of 5 60 request1 scalar_json 300 "\<lambda>r. Json 200 (JString ''fresh'')"]
    by simp
qed

subsection \<open>Commands issued by each operation\<close>

lemma touched_append: "touched (cs @ ds) = touched cs \<union> touched ds"
  by (simp add: touched_def map_filter_def)

lemma touched_single:
  "touched [GET k] = {}" "touched [SET k v] = {k}" "touched [SETEX k t v] = {k}"
  "touched [DEL k] = {k}"
  by (simp_all add: touched_def map_filter_def)

lemma trace_get_key: "trace (snd (get_key s k)) = trace s @ [GET k]"
  by (simp add: get_key_def client_get_def issue_def)

lemma touched_get_key: "touched (trace (snd (get_key s k))) = touched (trace s)"
  by (simp add: trace_get_key touched_append touched_single)

lemma touched_set_key: "touched (trace (snd (set_key s k v t))) = insert k (touched (trace s))"
  by (simp add: set_key_def client_set_def client_setex_def issue_def touched_append
      touched_single split: option.splits)

lemma touched_del_key: "touched (trace (snd (del_key s k))) = insert k (touched (trace s))"
  by (simp add: del_key_def client_del_def issue_def touched_append touched_single)

lemma touched_rateLimit:
  "touched (trace (snd (rateLimit s k limit window))) \<subseteq> insert k (touched (trace s))"
proof (cases "get_key s k")
  case (Pair r s1)
  then have t1: "touched (trace s1) = touched (trace s)"
    using touched_get_key [of s k] by simp
  show ?thesis
  proof (cases r)
    case (Inl e)
    with Pair t1 show ?thesis by (auto simp: rateLimit_def)
  next
    case (Inr current)
    show ?thesis
    proof (cases "number_ge (count_of current) limit")
      case True
      with Pair Inr t1 show ?thesis by (auto simp: rateLimit_def)
    next
      case False
      let ?w = "set_key s1 k (toString (number_succ (count_of current))) (Some window)"
      have "snd (rateLimit s k limit window) = snd ?w"
        using Pair Inr False by (simp add: rateLimit_def split: prod.splits sum.splits)
      then show ?thesis using t1 by (simp add: touched_set_key)
    qed
  qed
qed

lemma touched_rateLimit_request:
  "touched (trace (snd (rateLimit_request limit window req s)))
     \<subseteq> insert (''rate_limit:'' @ template (ip req)) (touched (trace s))"
proof -
  have eq: "snd (rateLimit_request limit window req s) =
      snd (rateLimit s (''rate_limit:'' @ template (ip req)) limit window)"
    by (simp add: rateLimit_request_def split: prod.splits sum.splits)
  show ?thesis unfolding eq by (rule touched_rateLimit)
qed

lemma touched_apiRateLimit_request:
  "\<exists>u. touched (trace (snd (apiRateLimit_request limit window req s)))
     \<subseteq> insert (''api_rate_limit:'' @ u) (touched (trace s))"
proof -
  define u where "u = template (case user_id req of None \<Rightarrow> ip req
                    | Some u \<Rightarrow> if u \<noteq> [] then Some u else ip req)"
  have eq: "snd (apiRateLimit_request limit window req s) =
      snd (rateLimit s (''api_rate_limit:'' @ u) limit window)"
    by (simp add: apiRateLimit_request_def u_def split: prod.splits sum.splits)
  have "touched (trace (snd (apiRateLimit_request limit window req s)))
     \<subseteq> insert (''api_rate_limit:'' @ u) (touched (trace s))"
    unfolding eq by (rule touched_rateLimit)
  then show ?thesis by (rule exI)
qed

lemma cache_request_cases:
  "snd (cache_request J t req s) = snd (get_key s (''cache:'' @ originalUrl req))"
  "fst (cache_request J t req s) = NextCaching k t' \<Longrightarrow> k = ''cache:'' @ originalUrl req"
  by (auto simp: cache_request_def Let_def split: prod.splits sum.splits option.splits if_splits)

lemma touched_cache_request:
  "touched (trace (snd (cache_request J t req s))) = touched (trace s)"
  by (simp add: cache_request_cases(1) touched_get_key)

lemma touched_serve:
  "touched (trace (snd (snd (serve J t handler req s))))
     \<subseteq> insert (''cache:'' @ originalUrl req) (touched (trace s))"
proof (cases "cache_request J t req s")
  case (Pair out s1)
  then have t1: "touched (trace s1) = touched (trace s)"
    using touched_cache_request [of J t req s] by simp
  show ?thesis
  proof (cases out)
    case (Responded r)
    with Pair t1 show ?thesis by (auto simp: serve_def)
  next
    case Next
    with Pair t1 show ?thesis by (auto simp: serve_def split: reply.splits)
  next
    case (NextCaching k t')
    then have "k = ''cache:'' @ originalUrl req"
      using Pair cache_request_cases(2) [of J t req s k t'] by simp
    with Pair NextCaching t1 show ?thesis
      by (auto simp: serve_def touched_set_key split: reply.splits)
  qed
qed

lemma touched_invalidateCache_request:
  "touched (trace (snd (invalidateCache_request pattern req s)))
     = insert (''cache:'' @ pattern) (touched (trace s))"
  by (simp add: invalidateCache_request_def split_beta touched_del_key)

lemma touched_cacheUserSession:
  "touched (trace (snd (cacheUserSession J s userId d t)))
     = insert (''session:'' @ userId) (touched (trace s))"
  by (simp add: cacheUserSession_def touched_set_key)

lemma touched_getUserSession:
  "touched (trace (snd (getUserSession J s userId))) = touched (trace s)"
proof -
  have "snd (getUserSession J s userId) = snd (get_key s (''session:'' @ userId))"
    by (simp add: getUserSession_def split: prod.splits sum.splits option.splits)
  then show ?thesis by (simp add: touched_get_key)
qed

lemma touched_invalidateUserSession:
  "touched (trace (snd (invalidateUserSession s userId)))
     = insert (''session:'' @ userId) (touched (trace s))"
proof -
  have "snd (invalidateUserSession s userId) = snd (del_key s (''session:'' @ userId))"
    by (simp add: invalidateUserSession_def split: prod.splits sum.splits)
  then show ?thesis by (simp add: touched_del_key)
qed

lemma namespaced_prefixes:
  "namespaced (''rate_limit:'' @ x)" "namespaced (''api_rate_limit:'' @ x)"
  "namespaced (''cache:'' @ x)" "namespaced (''session:'' @ x)"
  by (simp_all add: namespaced_def reserved_def)

text \<open>
  C9 (amended). Every key written or deleted by the rate-limit middleware, the API
  rate-limit middleware, the cache middleware with its handler, the cache invalidation and
  the session operations lies in one of the four name spaces \<^verbatim>\<open>rate_limit:\<close>,
  \<^verbatim>\<open>api_rate_limit:\<close>, \<^verbatim>\<open>cache:\<close> and \<^verbatim>\<open>session:\<close>.
\<close>

theorem written_keys_namespaced:
  "touched (trace (snd (rateLimit_request limit window req s :: 'd outcome \<times> store)))
     \<subseteq> touched (trace s) \<union> Collect namespaced
   \<and> touched (trace (snd (apiRateLimit_request limit window req s :: 'd outcome \<times> store)))
     \<subseteq> touched (trace s) \<union> Collect namespaced
   \<and> touched (trace (snd (snd (serve J t handler req s))))
     \<subseteq> touched (trace s) \<union> Collect namespaced
   \<and> touched (trace (snd (invalidateCache_request pattern req s :: 'd outcome \<times> store)))
     \<subseteq> touched (trace s) \<union> Collect namespaced
   \<and> touched (trace (snd (cacheUserSession J s userId doc t')))
     \<subseteq> touched (trace s) \<union> Collect namespaced
   \<and> touched (trace (snd (getUserSession J s userId)))
     \<subseteq> touched (trace s) \<union> Collect namespaced
   \<and> touched (trace (snd (invalidateUserSession s userId)))
     \<subseteq> touched (trace s) \<union> Collect namespaced"
proof (intro conjI)
  show "touched (trace (snd (rateLimit_request limit window req s :: 'd outcome \<times> store)))
     \<subseteq> touched (trace s) \<union> Collect namespaced"
    using touched_rateLimit_request [of limit window req s] namespaced_prefixes(1) by auto
  show "touched (trace (snd (apiRateLimit_request limit window req s :: 'd outcome \<times> store)))
     \<subseteq> touched (trace s) \<union> Collect namespaced"
    using touched_apiRateLimit_request [of limit window req s] namespaced_prefixes(2) by auto
  show "touched (trace (snd (snd (serve J t handler req s))))
     \<subseteq> touched (trace s) \<union> Collect namespaced"
    using touched_serve [of J t handler req s] namespaced_prefixes(3) by auto
  show "touched (trace (snd (invalidateCache_request pattern req s :: 'd outcome \<times> store)))
     \<subseteq> touched (trace s) \<union> Collect namespaced"
    using namespaced_prefixes(3) by (auto simp: touched_invalidateCache_request)
  show "touched (trace (snd (cacheUserSession J s userId doc t')))
     \<subseteq> touched (trace s) \<union> Collect namespaced"
    using namespaced_prefixes(4) by (auto simp: touched_cacheUserSession)
  show "touched (trace (snd (getUserSession J s userId)))
     \<subseteq> touched (trace s) \<union> Collect namespaced"
    by (simp add: touched_getUserSession)
  show "touched (trace (snd (invalidateUserSession s userId)))
     \<subseteq> touched (trace s) \<union> Collect namespaced"
    using namespaced_prefixes(4) by (auto simp: touched_invalidateUserSession)
qed

lemma rateLimit_fresh_first:
  assumes "0 < limit" and "0 < window"
  shows "rateLimit fresh_store k limit window =
    (Inr True, fresh_store\<lparr>kv := [k \<mapsto> \<lparr>val = ''1'', ttl = Some window\<rparr>],
                 trace := [GET k, SETEX k window ''1'']\<rparr>)"
proof -
  have a: "available fresh_store" by (simp add: fresh_store_def)
  have c: "count_of (map_option val (kv fresh_store k)) = Num 0"
    by (simp add: fresh_store_def count_of_def)
  have t: "toString (Num (0 + 1)) = ''1''" by code_simp
  show ?thesis
    using rateLimit_admit [OF a c assms] unfolding t by (simp add: fresh_store_def)
qed

text \<open>
  The API rate-limit middleware writes its counter under \<^verbatim>\<open>api_rate_limit:\<close>, which is none
  of the three reserved prefixes.
\<close>

theorem api_rate_limit_key_counterexample:
  "trace (snd (apiRateLimit_request 5 60 request1 fresh_store :: scalar outcome \<times> store))
     = [GET ''api_rate_limit:u1'', SETEX ''api_rate_limit:u1'' 60 ''1'']
   \<and> \<not> reserved ''api_rate_limit:u1''"
proof -
  have "rateLimit fresh_store ''api_rate_limit:u1'' 5 60 =
    (Inr True, fresh_store\<lparr>kv := [''api_rate_limit:u1'' \<mapsto> \<lparr>val = ''1'', ttl = Some 60\<rparr>],
                 trace := [GET ''api_rate_limit:u1'', SETEX ''api_rate_limit:u1'' 60 ''1'']\<rparr>)"
    by (rule rateLimit_fresh_first) simp_all
  then have "trace (snd (apiRateLimit_request 5 60 request1 fresh_store :: scalar outcome \<times> store))
     = [GET ''api_rate_limit:u1'', SETEX ''api_rate_limit:u1'' 60 ''1'']"
    by (simp add: apiRateLimit_request_def request1_def template_def)
  moreover have "\<not> reserved ''api_rate_limit:u1''"
    by (simp add: reserved_def)
  ultimately show ?thesis by simp
qed

text \<open>
  C8 (amended). Building a middleware never rejects a configuration: \<^verbatim>\<open>rateLimit\<close>,
  \<^verbatim>\<open>apiRateLimit\<close> and \<^verbatim>\<open>cache\<close> return the request handler for every value, missing or
  not positive included. The value is first used at request time: a rate-limit middleware
  built with a limit that is not positive answers 429 to a caller without any counter.
\<close>

theorem configuration_accepted_at_setup:
  "\<not> isl (rateLimit_middleware limit window :: error + (request \<Rightarrow> store \<Rightarrow> 'd outcome \<times> store))
   \<and> \<not> isl (apiRateLimit limit window :: error + (request \<Rightarrow> store \<Rightarrow> 'd outcome \<times> store))
   \<and> \<not> isl (cache (J :: 'd json_api) t)
   \<and> (l \<le> 0 \<and> available s \<and> kv s (''rate_limit:'' @ template (ip req)) = None
        \<longrightarrow> map_option status
              (sent (fst ((projr (rateLimit_middleware (Some l) window)
                           :: request \<Rightarrow> store \<Rightarrow> 'd outcome \<times> store) req s))) = Some 429)"
proof -
  let ?k = "''rate_limit:'' @ template (ip req)"
  have "map_option status
          (sent (fst ((projr (rateLimit_middleware (Some l) window)
                       :: request \<Rightarrow> store \<Rightarrow> 'd outcome \<times> store) req s))) = Some 429"
    if "l \<le> 0" and "available s" and "kv s ?k = None"
  proof -
    have "count_of (map_option val (kv s ?k)) = Num 0"
      using that(3) by (simp add: count_of_def)
    then have "rateLimit s ?k l (or_default 3600 window) = (Inr False, s\<lparr>trace := trace s @ [GET ?k]\<rparr>)"
      using that(1,2) by (intro rateLimit_reject) auto
    then show ?thesis
      by (simp add: rateLimit_middleware_def or_default_def rateLimit_request_def del: toString.simps)
  qed
  then show ?thesis
    by (simp add: rateLimit_middleware_def apiRateLimit_def cache_def)
qed

text \<open>
  Limit 0 and a fresh store: the first request is answered with status 429.
\<close>

theorem configuration_accepted_at_setup_witness:
  "available fresh_store \<and> kv fresh_store (''rate_limit:'' @ template (ip request1)) = None
   \<and> map_option status
        (sent (fst ((projr (rateLimit_middleware (Some 0) (Some 60))
                     :: request \<Rightarrow> store \<Rightarrow> scalar outcome \<times> store) request1 fresh_store))) = Some 429"
proof -
  have a: "available fresh_store"
    and b: "kv fresh_store (''rate_limit:'' @ template (ip request1)) = None"
    by (simp_all add: fresh_store_def)
  show ?thesis
    using a b configuration_accepted_at_setup
      [where l = 0 and s = fresh_store and req = request1 and window = "Some 60"
        and J = scalar_json and limit = None and t = None]
    by simp
qed

text \<open>
  Limit 0 with window 0, limit \<open>-1\<close>, and a time to live of 0 are all accepted when the
  middleware is built.
\<close>

theorem configuration_accepted_at_setup_counterexample:
  "\<not> isl (rateLimit_middleware (Some 0) (Some 0) :: error + (request \<Rightarrow> store \<Rightarrow> scalar outcome \<times> store))
   \<and> \<not> isl (apiRateLimit (Some (- 1)) (Some 60) :: error + (request \<Rightarrow> store \<Rightarrow> scalar outcome \<times> store))
   \<and> \<not> isl (cache scalar_json (Some 0))"
  by (simp add: rateLimit_middleware_def apiRateLimit_def cache_def)

section \<open>The scalar instance reads back what it prints\<close>

lemma trim_id:
  assumes "s \<noteq> []" and "\<not> json_space (hd s)" and "\<not> json_space (last s)"
  shows "trim s = s"
proof -
  have "dropWhile json_space s = s"
    using assms(1,2) by (cases s) simp_all
  moreover have "dropWhile json_space (rev s) = rev s"
    using assms(1,3) by (cases "rev s") (simp_all add: last_rev [symmetric] hd_rev)
  ultimately show ?thesis by (simp add: trim_def)
qed

lemma is_digit_digit_char: "d < 10 \<Longrightarrow> is_digit (digit_char d)"
  by (simp add: is_digit_def digit_char_code)

lemma dec_digits_is_digit: "list_all is_digit (dec_digits n)"
  using dec_digits_chars is_digit_digit_char by (fastforce simp: list_all_iff)

lemma is_digit_not_space: "is_digit c \<Longrightarrow> \<not> json_space c"
  by (auto simp: is_digit_def json_space_def)

lemma dec_digits_no_leading_zero:
  "length (dec_digits n) = 1 \<or> hd (dec_digits n) \<noteq> CHR ''0''"
proof (induction n rule: dec_digits.induct)
  case (1 n)
  show ?case
  proof (cases "n < 10")
    case True
    then show ?thesis by (simp add: dec_digits.simps [of n])
  next
    case False
    then have IH: "length (dec_digits (n div 10)) = 1 \<or> hd (dec_digits (n div 10)) \<noteq> CHR ''0''"
      using "1.IH" by simp
    have ne: "dec_digits (n div 10) \<noteq> []" by (rule dec_digits_nonempty)
    have "hd (dec_digits (n div 10)) \<noteq> CHR ''0''"
    proof (cases "n div 10 < 10")
      case True
      have pos: "0 < n div 10" using False by simp
      have "(of_char (digit_char (n div 10)) :: nat) \<noteq> of_char CHR ''0''"
        using True pos by (simp add: digit_char_code)
      then have "digit_char (n div 10) \<noteq> CHR ''0''" by force
      then show ?thesis using True by (simp add: dec_digits.simps [of "n div 10"])
    next
      case F: False
      then have "length (dec_digits (n div 10)) \<noteq> 1"
        using dec_digits_nonempty [of "n div 10 div 10"]
        by (simp add: dec_digits.simps [of "n div 10"])
      with IH show ?thesis by simp
    qed
    then show ?thesis using False ne by (simp add: dec_digits.simps [of n])
  qed
qed

lemma take_1_hd: "xs \<noteq> [] \<Longrightarrow> take 1 xs = [hd xs]"
  by (cases xs) simp_all

lemma dec_digits_literal:
  "dec_digits n \<noteq> [] \<and> list_all is_digit (dec_digits n)
   \<and> (length (dec_digits n) = 1 \<or> take 1 (dec_digits n) \<noteq> ''0'')"
proof -
  have ne: "dec_digits n \<noteq> []" by (rule dec_digits_nonempty)
  have "take 1 (dec_digits n) \<noteq> ''0''" if "hd (dec_digits n) \<noteq> CHR ''0''"
    unfolding take_1_hd [OF ne] using that by simp
  then show ?thesis
    using dec_digits_no_leading_zero [of n] ne dec_digits_is_digit [of n] by blast
qed

lemma int_literal_toString: "int_literal (toString (Num i))"
proof (cases "i < 0")
  case True
  have "take 1 (CHR ''-'' # dec_digits (nat (- i))) = ''-''" by simp
  then have "int_literal (CHR ''-'' # dec_digits (nat (- i)))"
    unfolding int_literal_def Let_def using dec_digits_literal [of "nat (- i)"] by simp
  with True show ?thesis by simp
next
  case False
  obtain d cs where d: "d < 10" and eq: "dec_digits (nat i) = digit_char d # cs"
    using dec_digits_head by blast
  have "digit_char d \<noteq> CHR ''-''" using digit_char_not_sign(1) [OF d] .
  then have "take 1 (dec_digits (nat i)) \<noteq> ''-''" by (simp add: eq)
  then have "int_literal (dec_digits (nat i))"
    unfolding int_literal_def Let_def using dec_digits_literal [of "nat i"] by simp
  with False show ?thesis by simp
qed

lemma toString_ends:
  "toString (Num i) \<noteq> []"
  "is_digit (hd (toString (Num i))) \<or> hd (toString (Num i)) = CHR ''-''"
  "is_digit (last (toString (Num i)))"
proof -
  show "toString (Num i) \<noteq> []" by (rule toString_nonempty)
  have all: "list_all is_digit (dec_digits n)" for n by (rule dec_digits_is_digit)
  have ne: "dec_digits n \<noteq> []" for n by (rule dec_digits_nonempty)
  have h: "is_digit (hd (dec_digits n))" and l: "is_digit (last (dec_digits n))" for n
    using all [of n] ne [of n] by (auto simp: list_all_iff)
  show "is_digit (hd (toString (Num i))) \<or> hd (toString (Num i)) = CHR ''-''"
    using h by simp
  show "is_digit (last (toString (Num i)))"
    using l ne by simp
qed

lemma not_space: "\<not> json_space CHR ''-''" "\<not> json_space (CHR 0x22)"
  by (simp_all add: json_space_def)

lemma parse_scalar_number: "parse_scalar (toString (Num i)) = Inr (JNumber i)"
proof -
  let ?t = "toString (Num i)"
  have "\<not> json_space (hd ?t)" "\<not> json_space (last ?t)"
    using toString_ends(2,3) [of i] is_digit_not_space not_space(1) by auto
  then have t: "trim ?t = ?t"
    using toString_ends(1) by (intro trim_id)
  have hd_cases: "is_digit (hd ?t) \<or> hd ?t = CHR ''-''" by (rule toString_ends(2))
  have "hd ?t \<noteq> CHR ''n''" "hd ?t \<noteq> CHR ''t''" "hd ?t \<noteq> CHR ''f''"
    using hd_cases by (auto simp: is_digit_def)
  then have "?t \<noteq> ''null''" "?t \<noteq> ''true''" "?t \<noteq> ''false''"
    by auto
  then show ?thesis
    unfolding parse_scalar_def t Let_def
    using int_literal_toString [of i] parseInt_toString [of i]
    by (simp del: toString.simps)
qed

lemma parse_scalar_string:
  assumes "list_all plain_char s"
  shows "parse_scalar (CHR 0x22 # s @ [CHR 0x22]) = Inr (JString s)"
proof -
  let ?t = "CHR 0x22 # s @ [CHR 0x22]"
  have t: "trim ?t = ?t"
    using not_space(2) by (intro trim_id) simp_all
  have lit: "\<not> int_literal ?t"
    by (simp add: int_literal_def is_digit_def)
  have str: "string_literal ?t"
    using assms by (simp add: string_literal_def butlast_append)
  have "butlast (drop 1 ?t) = s" by (simp add: butlast_append)
  then show ?thesis
    unfolding parse_scalar_def t Let_def using lit str by simp
qed

lemma serializable_scalar:
  assumes "plain_scalar d"
  shows "serializable scalar_json d"
proof (cases d)
  case JNull
  have "parse_scalar ''null'' = Inr JNull" by code_simp
  with JNull show ?thesis by (simp add: serializable_def scalar_json_def)
next
  case (JBool b)
  have "parse_scalar ''true'' = Inr (JBool True)" "parse_scalar ''false'' = Inr (JBool False)"
    by code_simp+
  with JBool show ?thesis by (simp add: serializable_def scalar_json_def)
next
  case (JNumber i)
  then show ?thesis
    using parse_scalar_number [of i] toString_nonempty [of "Num i"]
    by (simp add: serializable_def scalar_json_def del: toString.simps)
next
  case (JString s)
  then show ?thesis
    using parse_scalar_string [of s] assms
    by (simp add: serializable_def scalar_json_def)
qed

section \<open>Properties of sessions and of the cache\<close>

subsection \<open>Sessions and the cache on an available store\<close>

lemma del_key_available:
  "available s \<Longrightarrow>
   snd (del_key s k) = s\<lparr>kv := (kv s)(k := None), trace := trace s @ [DEL k]\<rparr>"
  by (simp add: del_key_def client_del_def issue_def)

lemma getUserSession_present:
  assumes "available s" and "map_option val (kv s (''session:'' @ userId)) = Some v" and "v \<noteq> []"
  shows "getUserSession J s userId = (parse J v, s\<lparr>trace := trace s @ [GET (''session:'' @ userId)]\<rparr>)"
proof -
  have "get_key s (''session:'' @ userId) =
      (Inr (Some v), s\<lparr>trace := trace s @ [GET (''session:'' @ userId)]\<rparr>)"
    using assms(1,2) by (simp only: get_key_available)
  then show ?thesis using assms(3) by (simp add: getUserSession_def)
qed

lemma getUserSession_absent:
  assumes "available s" and "kv s (''session:'' @ userId) = None"
  shows "getUserSession J s userId =
    (Inr (json_null J), s\<lparr>trace := trace s @ [GET (''session:'' @ userId)]\<rparr>)"
  using assms by (simp add: getUserSession_def get_key_available)

lemma invalidateUserSession_available:
  assumes "available s"
  shows "snd (invalidateUserSession s userId) =
    s\<lparr>kv := (kv s)(''session:'' @ userId := None), trace := trace s @ [DEL (''session:'' @ userId)]\<rparr>"
proof -
  have "snd (invalidateUserSession s userId) = snd (del_key s (''session:'' @ userId))"
    by (simp add: invalidateUserSession_def split: prod.splits sum.splits)
  then show ?thesis by (simp only: del_key_available [OF assms])
qed

text \<open>
  C6. For every user id, every document that \<^verbatim>\<open>JSON.parse\<close> reads back from its
  \<^verbatim>\<open>JSON.stringify\<close> text, and every positive time to live: a session saved and loaded
  before it expires is the document; after the session is invalidated, loading gives
  \<^verbatim>\<open>null\<close> and no error.
\<close>

theorem session_round_trip:
  assumes "available s" and "0 < secs" and "int e < secs"
    and "serializable J doc"
  shows "fst (getUserSession J (elapse e (snd (cacheUserSession J s userId doc (Some secs)))) userId)
           = Inr doc
       \<and> fst (getUserSession J
              (snd (invalidateUserSession (snd (cacheUserSession J s userId doc (Some secs))) userId))
              userId) = Inr (json_null J)
       \<and> fst (getUserSession J (snd (invalidateUserSession s userId)) userId) = Inr (json_null J)"
proof -
  let ?k = "''session:'' @ userId"
  let ?s1 = "snd (cacheUserSession J s userId doc (Some secs))"
  have rt: "parse J (stringify J doc) = Inr doc" and ne: "stringify J doc \<noteq> []"
    using assms(4) by (simp_all add: serializable_def)
  have s1: "?s1 = s\<lparr>kv := (kv s)(?k \<mapsto> \<lparr>val = stringify J doc, ttl = Some secs\<rparr>),
                    trace := trace s @ [SETEX ?k secs (stringify J doc)]\<rparr>"
    using assms(1,2) by (simp add: cacheUserSession_def or_default_def set_key_setex)
  have a1: "available ?s1" using assms(1) by (simp add: s1)
  have "kv ?s1 ?k = Some \<lparr>val = stringify J doc, ttl = Some secs\<rparr>" by (simp add: s1)
  then have "kv (elapse e ?s1) ?k = Some \<lparr>val = stringify J doc, ttl = Some (secs - int e)\<rparr>"
    using assms(3) by (rule kv_elapse_live)
  then have "map_option val (kv (elapse e ?s1) ?k) = Some (stringify J doc)" by simp
  then have "getUserSession J (elapse e ?s1) userId =
      (parse J (stringify J doc), (elapse e ?s1)\<lparr>trace := trace (elapse e ?s1) @ [GET ?k]\<rparr>)"
    using a1 ne by (intro getUserSession_present) simp_all
  then have one: "fst (getUserSession J (elapse e ?s1) userId) = Inr doc"
    using rt by simp
  have inv: "fst (getUserSession J (snd (invalidateUserSession s' userId)) userId) = Inr (json_null J)"
    if "available s'" for s'
  proof -
    let ?s2 = "snd (invalidateUserSession s' userId)"
    have "?s2 = s'\<lparr>kv := (kv s')(?k := None), trace := trace s' @ [DEL ?k]\<rparr>"
      using that by (rule invalidateUserSession_available)
    then have "available ?s2" and "kv ?s2 ?k = None" using that by simp_all
    then show ?thesis by (simp add: getUserSession_absent)
  qed
  show ?thesis using one inv [OF a1] inv [OF assms(1)] by simp
qed

lemma serializable_alice: "serializable scalar_json (JString ''alice'')"
  by (rule serializable_scalar) (simp add: plain_char_def)

text \<open>
  A session saved for 60 seconds and loaded after 59.
\<close>

theorem session_round_trip_witness:
  "fst (getUserSession scalar_json
          (elapse 59 (snd (cacheUserSession scalar_json fresh_store ''u1'' (JString ''alice'') (Some 60))))
          ''u1'') = Inr (JString ''alice'')
   \<and> fst (getUserSession scalar_json
            (snd (invalidateUserSession
                    (snd (cacheUserSession scalar_json fresh_store ''u1'' (JString ''alice'') (Some 60)))
                    ''u1''))
            ''u1'') = Inr JNull"
proof -
  have a: "available fresh_store" by (simp add: fresh_store_def)
  show ?thesis
    using session_round_trip [OF a _ _ serializable_alice, of 60 59 "''u1''"]
    by (simp add: scalar_json_def)
qed

lemma cache_request_present:
  assumes "available s" and "map_option val (kv s (''cache:'' @ originalUrl req)) = Some v"
    and "v \<noteq> []"
  shows "cache_request J t req s =
    (case parse J v of Inl e \<Rightarrow> Next | Inr d \<Rightarrow> Responded \<lparr>status = 200, body = Doc d\<rparr>,
     s\<lparr>trace := trace s @ [GET (''cache:'' @ originalUrl req)]\<rparr>)"
proof -
  have "get_key s (''cache:'' @ originalUrl req) =
      (Inr (Some v), s\<lparr>trace := trace s @ [GET (''cache:'' @ originalUrl req)]\<rparr>)"
    using assms(1,2) by (simp only: get_key_available)
  then show ?thesis using assms(3) by (simp add: cache_request_def Let_def split: sum.splits)
qed

lemma cache_request_miss:
  assumes "available s" and "kv s (''cache:'' @ originalUrl req) = None"
  shows "cache_request J t req s =
    (NextCaching (''cache:'' @ originalUrl req) t,
     s\<lparr>trace := trace s @ [GET (''cache:'' @ originalUrl req)]\<rparr>)"
  using assms by (simp add: cache_request_def get_key_available Let_def)

text \<open>
  C7 (amended). For a stored value that is not empty and on which \<^verbatim>\<open>JSON.parse\<close> throws:
  \<^verbatim>\<open>getUserSession\<close> does not read it as absent, the error reaches its caller; the cache
  middleware catches the error and calls \<^verbatim>\<open>next()\<close>, the handler runs, and since
  \<^verbatim>\<open>res.json\<close> was not replaced the store keeps the malformed entry.
\<close>

theorem malformed_value_on_read:
  assumes "available s" and "v \<noteq> []" and "parse J v = Inl e"
  shows "(map_option val (kv s (''session:'' @ userId)) = Some v
            \<longrightarrow> fst (getUserSession J s userId) = Inl e)
       \<and> (map_option val (kv s (''cache:'' @ originalUrl req)) = Some v
            \<longrightarrow> fst (cache_request J t req s) = Next
              \<and> fst (snd (serve J t handler req s)) = 1
              \<and> kv (snd (snd (serve J t handler req s))) = kv s)"
proof (intro conjI impI)
  assume h: "map_option val (kv s (''session:'' @ userId)) = Some v"
  show "fst (getUserSession J s userId) = Inl e"
    using getUserSession_present [OF assms(1) h assms(2), of J] assms(3) by simp
next
  assume h: "map_option val (kv s (''cache:'' @ originalUrl req)) = Some v"
  have c: "cache_request J t req s =
      (Next, s\<lparr>trace := trace s @ [GET (''cache:'' @ originalUrl req)]\<rparr>)"
    using cache_request_present [OF assms(1) h assms(2), of J t] assms(3) by simp
  show "fst (cache_request J t req s) = Next" using c by simp
  show "fst (snd (serve J t handler req s)) = 1"
    using c by (simp add: serve_def split: reply.splits)
  show "kv (snd (snd (serve J t handler req s))) = kv s"
    using c by (simp add: serve_def split: reply.splits)
qed

lemma parse_not_json: "parse scalar_json ''not json'' = Inl SyntaxError"
  by (simp add: scalar_json_def) code_simp

text \<open>
  The text \<^verbatim>\<open>not json\<close> under a session key in one store, and under a cache key in
  another store that holds no session.
\<close>

theorem malformed_value_on_read_witness:
  "parse scalar_json ''not json'' = Inl SyntaxError
   \<and> fst (getUserSession scalar_json (store_with ''session:u1'' ''not json'' (Some 60)) ''u1'')
       = Inl SyntaxError
   \<and> fst (cache_request scalar_json 300 request1 (store_with ''cache:/api/data'' ''not json'' None))
       = Next
   \<and> fst (snd (serve scalar_json 300 (\<lambda>r. Json 200 (JString ''fresh'')) request1
                 (store_with ''cache:/api/data'' ''not json'' None))) = 1"
proof -
  let ?s1 = "store_with ''session:u1'' ''not json'' (Some 60)"
  let ?s2 = "store_with ''cache:/api/data'' ''not json'' None"
  have a1: "available ?s1" and a2: "available ?s2" by (simp_all add: store_with_def)
  have b: "map_option val (kv ?s1 (''session:'' @ ''u1'')) = Some ''not json''"
    by (simp add: store_with_def)
  have c: "map_option val (kv ?s2 (''cache:'' @ originalUrl request1)) = Some ''not json''"
    by (simp add: store_with_def request1_def)
  have n: "''not json'' \<noteq> []" by simp
  have "fst (getUserSession scalar_json ?s1 ''u1'') = Inl SyntaxError"
    using malformed_value_on_read [OF a1 n parse_not_json, of "''u1''"] b by blast
  moreover have "fst (cache_request scalar_json 300 request1 ?s2) = Next
      \<and> fst (snd (serve scalar_json 300 (\<lambda>r. Json 200 (JString ''fresh'')) request1 ?s2)) = 1"
    using malformed_value_on_read [OF a2 n parse_not_json,
        of _ request1 300 "\<lambda>r. Json 200 (JString ''fresh'')"] c by blast
  ultimately show ?thesis using parse_not_json by simp
qed

text \<open>
  With \<^verbatim>\<open>not json\<close> stored under the session key, \<^verbatim>\<open>getUserSession\<close> ends in the
  \<^verbatim>\<open>SyntaxError\<close> of \<^verbatim>\<open>JSON.parse\<close> instead of answering \<^verbatim>\<open>null\<close>.
\<close>

theorem getUserSession_throws_counterexample:
  "fst (getUserSession scalar_json corrupt_store ''u1'') = Inl SyntaxError
   \<and> fst (getUserSession scalar_json corrupt_store ''u1'') \<noteq> Inr (json_null scalar_json)"
proof -
  have a: "available corrupt_store" by (simp add: corrupt_store_def)
  have b: "map_option val (kv corrupt_store (''session:'' @ ''u1'')) = Some ''not json''"
    by (simp add: corrupt_store_def)
  have "getUserSession scalar_json corrupt_store ''u1'' =
      (parse scalar_json ''not json'', corrupt_store\<lparr>trace := trace corrupt_store @ [GET (''session:'' @ ''u1'')]\<rparr>)"
    using a b by (rule getUserSession_present) simp
  then show ?thesis using parse_not_json by simp
qed

text \<open>
  C5. Two requests for the same URL, the first a miss whose handler answers through
  \<^verbatim>\<open>res.json\<close> and whose write completes, the second before the entry expires: the handler
  runs once, in the first request, whose data is stored; the second request is a hit that
  answers with the stored data and does not run the handler.
\<close>

theorem cache_round_trip:
  assumes "available s" and "kv s (''cache:'' @ originalUrl req) = None"
    and "originalUrl req' = originalUrl req"
    and "handler req = Json n d"
    and "0 \<le> t" and "t = 0 \<or> int e < t"
    and "serializable J d"
  shows "fst (serve J t handler req s) = Some \<lparr>status = n, body = Doc d\<rparr>
       \<and> fst (snd (serve J t handler req s)) = 1
       \<and> map_option val (kv (snd (snd (serve J t handler req s))) (''cache:'' @ originalUrl req))
           = Some (stringify J d)
       \<and> fst (serve J t handler req' (elapse e (snd (snd (serve J t handler req s)))))
           = Some \<lparr>status = 200, body = Doc d\<rparr>
       \<and> fst (snd (serve J t handler req' (elapse e (snd (snd (serve J t handler req s)))))) = 0"
proof -
  let ?k = "''cache:'' @ originalUrl req"
  let ?s0 = "s\<lparr>trace := trace s @ [GET ?k]\<rparr>"
  let ?s1 = "snd (set_key ?s0 ?k (stringify J d) (Some t))"
  have rt: "parse J (stringify J d) = Inr d" and ne: "stringify J d \<noteq> []"
    using assms(7) by (simp_all add: serializable_def)
  have first: "serve J t handler req s = (Some \<lparr>status = n, body = Doc d\<rparr>, 1, ?s1)"
    using cache_request_miss [OF assms(1,2), of J t] assms(4) by (simp add: serve_def)
  have a0: "available ?s0" using assms(1) by simp
  have a1: "available ?s1"
    using a0 by (simp add: set_key_def client_set_def client_setex_def issue_def)
  have stored: "\<exists>t'. kv ?s1 ?k = Some \<lparr>val = stringify J d, ttl = t'\<rparr> \<and> (t' = None \<or> t' = Some t \<and> int e < t)"
  proof (cases "t = 0")
    case True
    then show ?thesis using a0 by (simp add: set_key_zero)
  next
    case False
    then have "0 < t" and "int e < t" using assms(5,6) by simp_all
    then show ?thesis using a0 by (simp add: set_key_setex)
  qed
  then have live: "map_option val (kv (elapse e ?s1) ?k) = Some (stringify J d)"
    by (auto simp: kv_elapse_live kv_elapse_persistent)
  have "cache_request J t req' (elapse e ?s1) =
      (Responded \<lparr>status = 200, body = Doc d\<rparr>,
       (elapse e ?s1)\<lparr>trace := trace (elapse e ?s1) @ [GET ?k]\<rparr>)"
    using cache_request_present [of "elapse e ?s1" req' "stringify J d" J t] a1 live assms(3) rt ne
    by simp
  then have second: "serve J t handler req' (elapse e ?s1) =
      (Some \<lparr>status = 200, body = Doc d\<rparr>, 0, (elapse e ?s1)\<lparr>trace := trace (elapse e ?s1) @ [GET ?k]\<rparr>)"
    by (simp add: serve_def)
  have "map_option val (kv ?s1 ?k) = Some (stringify J d)"
    using stored by auto
  then show ?thesis using first second by simp
qed

text \<open>
  A time to live of 300 seconds and a second request after 299.
\<close>

theorem cache_round_trip_witness:
  "fst (serve scalar_json 300 (\<lambda>r. Json 201 (JString ''alice'')) request1 fresh_store)
     = Some \<lparr>status = 201, body = Doc (JString ''alice'')\<rparr>
   \<and> fst (snd (serve scalar_json 300 (\<lambda>r. Json 201 (JString ''alice'')) request1 fresh_store)) = 1
   \<and> fst (serve scalar_json 300 (\<lambda>r. Json 201 (JString ''alice'')) request1
           (elapse 299 (snd (snd (serve scalar_json 300 (\<lambda>r. Json 201 (JString ''alice''))
                                    request1 fresh_store)))))
       = Some \<lparr>status = 200, body = Doc (JString ''alice'')\<rparr>
   \<and> fst (snd (serve scalar_json 300 (\<lambda>r. Json 201 (JString ''alice'')) request1
           (elapse 299 (snd (snd (serve scalar_json 300 (\<lambda>r. Json 201 (JString ''alice''))
                                    request1 fresh_store)))))) = 0"
proof -
  have a: "available fresh_store"
    and b: "kv fresh_store (''cache:'' @ originalUrl request1) = None"
    by (simp_all add: fresh_store_def)
  have h: "(\<lambda>r. Json 201 (JString ''alice'')) request1 = Json 201 (JString ''alice'')" by simp
  show ?thesis
    using cache_round_trip [OF a b refl h _ _ serializable_alice, of 300 299]
    by simp
qed

end
